theory Spec2Isabelle
  imports Main "HOL-Library.Word" "HOL-Library.Monad_Syntax"
begin

unbundle bit_operations_syntax

section \<open>The shader archive codec of h1-shader-packager\<close>

text \<open>
  A shallow embedding of \<^verbatim>\<open>include/h1sp/crypt.hpp\<close>, \<^verbatim>\<open>src/crypt.cpp\<close>,
  \<^verbatim>\<open>include/h1sp/archive.hpp\<close> and \<^verbatim>\<open>src/archive.cpp\<close>.

  Conventions of the embedding:
  \<^item> \<^verbatim>\<open>std::byte\<close> is \<open>8 word\<close>, \<^verbatim>\<open>std::uint32_t\<close> is \<open>32 word\<close> (addition and
    subtraction wrap, \<^verbatim>\<open><<\<close> is \<open>push_bit\<close>, \<^verbatim>\<open>>>\<close> is \<open>drop_bit\<close>).
  \<^item> \<^verbatim>\<open>std::size_t\<close> is taken to be 64 bits wide, as on the x86-64 targets of the
    compiler the README names. Sizes of buffers are natural numbers: no buffer that
    fits in memory has a size that wraps a 64-bit counter. The one place where a size
    is narrowed to 32 bits (the chunk header written by \<^verbatim>\<open>load_members_from\<close>) is
    modelled with the truncation written out (\<open>of_nat\<close> into \<open>32 word\<close>).
  \<^item> A \<^verbatim>\<open>std::span\<close> of bytes that a routine mutates in place is the list of the
    bytes it views; the routine returns the new contents.
  \<^item> A pointer into a buffer is an offset into that list. An access that would leave the
    buffer (undefined behaviour in C++) and a loop that would not stop both give
    \<open>None\<close>; a routine that returns gives \<open>Some\<close> of its result.
\<close>

type_synonym byte = "8 word"
type_synonym uint32_t = "32 word"

subsection \<open>Byte order helpers\<close>

text \<open>
  Modelled from the spec: the header \<^verbatim>\<open>h1sp/io.hpp\<close>, which declares \<^verbatim>\<open>serialize\<close> and
  \<^verbatim>\<open>deserialize\<close>, is not among the sources. The spec fixes what the callers need: a
  32-bit word is stored in four bytes in the byte order named (``a 4-byte little-endian
  unsigned length field'', ``two 32-bit words per block, little-endian''). \<open>serialize\<close>
  gives the four bytes written at the cursor (the source returns the cursor advanced by
  four); \<open>deserialize\<close> reads the first four bytes found at the pointer.
\<close>

datatype endian = little | big

definition serialize :: "endian \<Rightarrow> uint32_t \<Rightarrow> byte list" where
  "serialize e v =
     (let le = map (\<lambda>i. ucast (drop_bit (8 * i) v)) [0..<4]
      in case e of little \<Rightarrow> le | big \<Rightarrow> rev le)"

definition deserialize :: "endian \<Rightarrow> byte list \<Rightarrow> uint32_t" where
  "deserialize e p =
     (let bs = take 4 p;
          le = (case e of little \<Rightarrow> bs | big \<Rightarrow> rev bs)
      in foldr (\<lambda>b w. ucast b OR push_bit 8 w) le 0)"

subsection \<open>The block cipher (crypt.hpp, crypt.cpp)\<close>

record tea =
  endian :: endian
  key :: "uint32_t list"

definition chunk_size :: nat where
  "chunk_size = 2 * 4"

definition h1_tea :: tea where
  "h1_tea = \<lparr>endian = little, key = [0x3FFFFFDD, 0x7FC3, 0xE5, 0x3FFFEF]\<rparr>"

definition delta :: uint32_t where
  "delta = 0x9E3779B9"

text \<open>
  The two \<^verbatim>\<open>for (int i = 0; i < 32; ++i)\<close> loops of \<^verbatim>\<open>tea::encrypt_chunk\<close> and
  \<^verbatim>\<open>tea::decrypt_chunk\<close>, on the state \<open>(sum, v0, v1)\<close>.
\<close>

function encrypt_loop :: "uint32_t list \<Rightarrow> nat \<Rightarrow> uint32_t \<times> uint32_t \<times> uint32_t
    \<Rightarrow> uint32_t \<times> uint32_t \<times> uint32_t" where
  "encrypt_loop k i (sm, v0, v1) =
     (if i < 32 then
        let sm = sm + delta;
            v0 = v0 + ((push_bit 4 v1 + k ! 0) XOR (v1 + sm) XOR (drop_bit 5 v1 + k ! 1));
            v1 = v1 + ((push_bit 4 v0 + k ! 2) XOR (v0 + sm) XOR (drop_bit 5 v0 + k ! 3))
        in encrypt_loop k (i + 1) (sm, v0, v1)
      else (sm, v0, v1))"
  by pat_completeness auto
termination
  by (relation "measure (\<lambda>(k, i, s). 32 - i)") auto

function decrypt_loop :: "uint32_t list \<Rightarrow> nat \<Rightarrow> uint32_t \<times> uint32_t \<times> uint32_t
    \<Rightarrow> uint32_t \<times> uint32_t \<times> uint32_t" where
  "decrypt_loop k i (sm, v0, v1) =
     (if i < 32 then
        let v1 = v1 - ((push_bit 4 v0 + k ! 2) XOR (v0 + sm) XOR (drop_bit 5 v0 + k ! 3));
            v0 = v0 - ((push_bit 4 v1 + k ! 0) XOR (v1 + sm) XOR (drop_bit 5 v1 + k ! 1));
            sm = sm - delta
        in decrypt_loop k (i + 1) (sm, v0, v1)
      else (sm, v0, v1))"
  by pat_completeness auto
termination
  by (relation "measure (\<lambda>(k, i, s). 32 - i)") auto

declare encrypt_loop.simps [simp del] decrypt_loop.simps [simp del]

text \<open>
  \<^verbatim>\<open>tea::encrypt_chunk(std::byte* chunk)\<close> reads two words at \<^verbatim>\<open>chunk\<close> and
  \<^verbatim>\<open>chunk + 4\<close> and writes two words back to the same places. The argument of the
  model is the bytes found at \<^verbatim>\<open>chunk\<close>, the result the eight bytes written there.
\<close>

definition encrypt_chunk :: "tea \<Rightarrow> byte list \<Rightarrow> byte list" where
  "encrypt_chunk scheme chunk =
     (let v0 = deserialize (endian scheme) chunk;
          v1 = deserialize (endian scheme) (drop 4 chunk);
          (sm, v0, v1) = encrypt_loop (key scheme) 0 (0, v0, v1)
      in serialize (endian scheme) v0 @ serialize (endian scheme) v1)"

definition decrypt_chunk :: "tea \<Rightarrow> byte list \<Rightarrow> byte list" where
  "decrypt_chunk scheme chunk =
     (let v0 = deserialize (endian scheme) chunk;
          v1 = deserialize (endian scheme) (drop 4 chunk);
          (sm, v0, v1) = decrypt_loop (key scheme) 0 (0xC6EF3720, v0, v1)
      in serialize (endian scheme) v0 @ serialize (endian scheme) v1)"

text \<open>
  A call \<^verbatim>\<open>scheme.encrypt_chunk(p)\<close> on a pointer \<open>p\<close> into the buffer \<open>mem\<close>: the eight
  bytes at offset \<open>p\<close> are replaced. A chunk that does not lie inside the buffer is an
  access out of bounds.
\<close>

definition in_place :: "(byte list \<Rightarrow> byte list) \<Rightarrow> nat \<Rightarrow> byte list \<Rightarrow> byte list option" where
  "in_place f p mem =
     (if p + chunk_size \<le> length mem
      then Some (take p mem @ f (take chunk_size (drop p mem)) @ drop (p + chunk_size) mem)
      else None)"

text \<open>
  The loops \<^verbatim>\<open>for (chunk = begin, end = ...; chunk != end; chunk += chunk_size)\<close> of
  \<^verbatim>\<open>encrypt_buffer\<close> and \<^verbatim>\<open>decrypt_buffer\<close>. The guard is an inequality, so the loop
  as written stops only when \<open>chunk\<close> hits \<open>end'\<close> exactly.
\<close>

partial_function (option) encrypt_chunks :: "tea \<Rightarrow> nat \<Rightarrow> nat \<Rightarrow> byte list \<Rightarrow> byte list option" where
  "encrypt_chunks scheme chunk end' buf =
     (if chunk \<noteq> end'
      then in_place (encrypt_chunk scheme) chunk buf \<bind> encrypt_chunks scheme (chunk + chunk_size) end'
      else Some buf)"

partial_function (option) decrypt_chunks :: "tea \<Rightarrow> nat \<Rightarrow> nat \<Rightarrow> byte list \<Rightarrow> byte list option" where
  "decrypt_chunks scheme chunk end' buf =
     (if chunk \<noteq> end'
      then in_place (decrypt_chunk scheme) chunk buf \<bind> decrypt_chunks scheme (chunk + chunk_size) end'
      else Some buf)"

declare encrypt_chunks.simps [code] decrypt_chunks.simps [code]

definition encrypt_buffer :: "tea \<Rightarrow> byte list \<Rightarrow> byte list option" where
  "encrypt_buffer scheme buf =
     (let len = length buf in
      if len < chunk_size then Some buf
      else encrypt_chunks scheme 0 (len - len mod chunk_size) buf \<bind> (\<lambda>buf.
           if len mod chunk_size \<noteq> 0
           then in_place (encrypt_chunk scheme) (len - chunk_size) buf
           else Some buf))"

definition decrypt_buffer :: "tea \<Rightarrow> byte list \<Rightarrow> byte list option" where
  "decrypt_buffer scheme buf =
     (let len = length buf in
      if len < chunk_size \<or> len \<le> 0 then Some buf
      else (if len mod chunk_size \<noteq> 0
            then in_place (decrypt_chunk scheme) (len - chunk_size) buf
            else Some buf) \<bind> (\<lambda>buf.
           decrypt_chunks scheme 0 (len - len mod chunk_size) buf))"

text \<open>
  \<^verbatim>\<open>compute_md5_digest\<close>: the 16 bytes of the digest printed with \<^verbatim>\<open>%02hhx\<close>, as a
  string of 32 characters. OpenSSL's \<^verbatim>\<open>MD5\<close> is not part of the repository: it is the
  parameter \<open>MD5\<close>, a function from the bytes to a 128-bit digest. The guard
  \<^verbatim>\<open>len > std::numeric_limits<unsigned long>::max()\<close> cannot hold where
  \<^verbatim>\<open>unsigned long\<close> is as wide as \<^verbatim>\<open>std::size_t\<close>, and is left out.
\<close>

definition hex_digit :: "byte \<Rightarrow> byte" where
  "hex_digit n = (if n < 10 then 0x30 + n else 0x61 + (n - 10))"

definition compute_md5_digest :: "(byte list \<Rightarrow> 128 word) \<Rightarrow> byte list \<Rightarrow> byte list" where
  "compute_md5_digest MD5 buf =
     (let digest = map (\<lambda>i. ucast (drop_bit (8 * (15 - i)) (MD5 buf)) :: byte) [0..<16]
      in concat (map (\<lambda>d. [hex_digit (drop_bit 4 d), hex_digit (d AND 0xF)]) digest))"

subsection \<open>Buffers, spans and the archive (archive.hpp, archive.cpp)\<close>

text \<open>
  \<^verbatim>\<open>byte_buffer\<close> owns an array and knows its size. \<open>None\<close> is the null pointer (with
  \<^verbatim>\<open>nbytes\<close> 0, as in every value the program builds), \<open>Some bs\<close> an array holding \<open>bs\<close>.
  \<open>holds_data\<close> is \<^verbatim>\<open>operator bool\<close>, \<open>buffer_range\<close> the bytes of \<^verbatim>\<open>range()\<close>.
  A span into a buffer is an offset and an extent; \<open>view\<close> reads the bytes it covers.
\<close>

type_synonym byte_buffer = "byte list option"

definition nbytes :: "byte_buffer \<Rightarrow> nat" where
  "nbytes b = (case b of None \<Rightarrow> 0 | Some bs \<Rightarrow> length bs)"

definition holds_data :: "byte_buffer \<Rightarrow> bool" where
  "holds_data b = (b \<noteq> None)"

definition buffer_range :: "byte_buffer \<Rightarrow> byte list" where
  "buffer_range b = (case b of None \<Rightarrow> [] | Some bs \<Rightarrow> bs)"

record span =
  offset :: nat
  extent :: nat

definition whole :: "byte_buffer \<Rightarrow> span" where
  "whole b = \<lparr>offset = 0, extent = nbytes b\<rparr>"

definition span_first :: "span \<Rightarrow> nat \<Rightarrow> span" where
  "span_first s n = \<lparr>offset = offset s, extent = n\<rparr>"

definition span_last :: "span \<Rightarrow> nat \<Rightarrow> span" where
  "span_last s n = \<lparr>offset = offset s + (extent s - n), extent = n\<rparr>"

definition view :: "byte list \<Rightarrow> span \<Rightarrow> byte list" where
  "view mem s = take (extent s) (drop (offset s) mem)"

record archive =
  filebuf :: byte_buffer
  data :: span

text \<open>The value-initialised \<^verbatim>\<open>archive{}\<close>: no buffer, an empty span.\<close>

definition empty_archive :: archive where
  "empty_archive = \<lparr>filebuf = None, data = \<lparr>offset = 0, extent = 0\<rparr>\<rparr>"

datatype read_error = read_success | read_could_not_open_file | read_archive_data_is_corrupt

datatype write_error = write_success | write_no_data_to_write | write_could_not_open_file

text \<open>The two messages \<^verbatim>\<open>read_from_file\<close> prints to \<^verbatim>\<open>stderr\<close>.\<close>

datatype diagnostic = md5_did_not_match "byte list" "byte list" | error_at_archive_member nat

subsection \<open>The chunk enumerator\<close>

text \<open>
  \<^verbatim>\<open>archive_enumerator\<close> has one member, the span \<^verbatim>\<open>range\<close> of the bytes not yet
  consumed; the model is the list of those bytes. \<^verbatim>\<open>range.last(n)\<close> keeps the last
  \<open>n\<close> bytes, \<^verbatim>\<open>range.subspan(4, n)\<close> the \<open>n\<close> bytes after the first four.
\<close>

type_synonym archive_enumerator = "byte list"

definition is_at_end :: "archive_enumerator \<Rightarrow> bool" where
  "is_at_end rng = (rng = [])"

definition has_error :: "archive_enumerator \<Rightarrow> bool" where
  "has_error rng =
     (if is_at_end rng then False
      else if length rng < 4 then True
      else let chunk_size = deserialize little rng
           in if unat chunk_size + 4 > length rng then True else False)"

definition finished :: "archive_enumerator \<Rightarrow> bool" where
  "finished rng = (is_at_end rng \<or> has_error rng)"

definition advance :: "archive_enumerator \<Rightarrow> archive_enumerator" where
  "advance rng =
     (if \<not> finished rng then
        let chunk_size = deserialize little rng
        in drop (length rng - (length rng - unat chunk_size - 4)) rng
      else rng)"

definition enumerator_data :: "archive_enumerator \<Rightarrow> byte list" where
  "enumerator_data rng =
     (if finished rng then []
      else let chunk_size = deserialize little rng
           in take (unat chunk_size) (drop 4 rng))"

text \<open>
  The validation loop of \<^verbatim>\<open>read_from_file\<close>,
  \<^verbatim>\<open>for (; e; e.advance()) { ++member; }\<close>, and the loop of \<^verbatim>\<open>archive::for_each\<close>,
  \<^verbatim>\<open>for (auto e = enumerate(); e; e.advance()) f(e.data())\<close>, with a visitor that
  collects the ranges it is given. Both stop: an enumerator that is not finished holds at
  least four bytes and \<open>advance\<close> drops them.
\<close>

function validate_members :: "nat \<Rightarrow> archive_enumerator \<Rightarrow> nat \<times> archive_enumerator" where
  "validate_members member e =
     (if \<not> finished e then validate_members (member + 1) (advance e) else (member, e))"
  by pat_completeness auto
termination
  by (relation "measure (\<lambda>(member, e). length e)")
     (auto simp: advance_def finished_def has_error_def is_at_end_def Let_def split: if_splits)

function for_each :: "archive_enumerator \<Rightarrow> byte list list" where
  "for_each e = (if \<not> finished e then enumerator_data e # for_each (advance e) else [])"
  by pat_completeness auto
termination
  by (relation "measure length")
     (auto simp: advance_def finished_def has_error_def is_at_end_def Let_def split: if_splits)

declare validate_members.simps [simp del] for_each.simps [simp del]

subsection \<open>Reading, assembling and flushing an archive\<close>

text \<open>
  \<^verbatim>\<open>read_file\<close>: the file is \<open>None\<close> when it cannot be opened or read in full, \<open>Some\<close>
  of its contents otherwise. A file of size 0 gives the empty buffer, like a file that
  cannot be opened.
\<close>

definition read_file :: "byte list option \<Rightarrow> byte_buffer" where
  "read_file file =
     (case file of
        None \<Rightarrow> None
      | Some contents \<Rightarrow> if length contents \<le> 0 then None else Some contents)"

text \<open>
  \<^verbatim>\<open>archive::read_from_file\<close>, on the codec \<open>this\<close>: the result is the error code, the
  codec after the call and what was printed to \<^verbatim>\<open>stderr\<close>.
\<close>

definition read_from_file :: "(byte list \<Rightarrow> 128 word) \<Rightarrow> archive \<Rightarrow> byte list option
    \<Rightarrow> (read_error \<times> archive \<times> diagnostic list) option" where
  "read_from_file MD5 this file =
     (let buf = read_file file in
      if \<not> holds_data buf then Some (read_could_not_open_file, this, [])
      else if nbytes buf < 34 then Some (read_archive_data_is_corrupt, this, [])
      else
        let archive_data = span_first (whole buf) (nbytes buf - 33);
            archive_md5 = span_last (whole buf) 33
        in decrypt_buffer h1_tea (buffer_range buf) \<bind> (\<lambda>mem.
             let md5_str = compute_md5_digest MD5 (view mem archive_data);
                 md5_sv = md5_str @ [0]
             in if view mem archive_md5 \<noteq> md5_sv
                then Some (read_archive_data_is_corrupt, this,
                           [md5_did_not_match md5_str (view mem archive_md5)])
                else
                  let (member, e) = validate_members 0 (view mem archive_data)
                  in if has_error e
                     then Some (read_archive_data_is_corrupt, this, [error_at_archive_member member])
                     else Some (read_success, \<lparr>filebuf = Some mem, data = archive_data\<rparr>, [])))"

text \<open>
  \<^verbatim>\<open>archive::load_members_from\<close>: \<open>write_at\<close> is \<^verbatim>\<open>std::copy\<close> to the cursor,
  \<open>write_members\<close> the loop over the members. The header of a member is
  \<^verbatim>\<open>chunk_size_type{member.nbytes}\<close>, the size narrowed to 32 bits. The array that
  \<^verbatim>\<open>new std::byte[total_size]\<close> returns is not initialised; the model starts from
  zeros, and every byte of it is overwritten.
\<close>

definition write_at :: "byte list \<Rightarrow> nat \<Rightarrow> byte list \<Rightarrow> byte list" where
  "write_at mem cursor bs = take cursor mem @ bs @ drop (cursor + length bs) mem"

fun write_members :: "byte_buffer list \<Rightarrow> byte list \<times> nat \<Rightarrow> byte list \<times> nat" where
  "write_members [] (mem, cursor) = (mem, cursor)"
| "write_members (member # member_bufs) (mem, cursor) =
     (let mem = write_at mem cursor (serialize little (of_nat (nbytes member)));
          cursor = cursor + 4;
          mem = write_at mem cursor (buffer_range member);
          cursor = cursor + nbytes member
      in write_members member_bufs (mem, cursor))"

definition load_members_from :: "(byte list \<Rightarrow> 128 word) \<Rightarrow> byte_buffer list \<Rightarrow> archive" where
  "load_members_from MD5 member_bufs =
     (let total_size = foldl (\<lambda>size buf. size + nbytes buf) 0 member_bufs
                         + 4 * length member_bufs + 33;
          buf = Some (replicate total_size 0);
          (mem, cursor) = write_members member_bufs (buffer_range buf, 0);
          mem = write_at mem cursor
                  (compute_md5_digest MD5 (view mem (span_first (whole buf) (nbytes buf - 33))) @ [0])
      in \<lparr>filebuf = Some mem, data = span_first (whole buf) (nbytes buf - 33)\<rparr>)"

text \<open>
  \<^verbatim>\<open>archive::flush_to_file\<close>: \<open>can_open\<close> says whether \<^verbatim>\<open>fopen(file, "wb")\<close> succeeds.
  The result is the error code, the codec after the call and the bytes handed to
  \<^verbatim>\<open>fwrite\<close> (\<open>None\<close> when no file was written).
\<close>

definition flush_to_file :: "archive \<Rightarrow> bool \<Rightarrow> (write_error \<times> archive \<times> byte list option) option" where
  "flush_to_file this can_open =
     (if extent (data this) < 4 then Some (write_no_data_to_write, this, None)
      else if \<not> can_open then Some (write_could_not_open_file, this, None)
      else encrypt_buffer h1_tea (buffer_range (filebuf this)) \<bind> (\<lambda>mem.
             Some (write_success, empty_archive, Some mem)))"

definition enumerate :: "archive \<Rightarrow> archive_enumerator" where
  "enumerate this = view (buffer_range (filebuf this)) (data this)"

subsection \<open>Derived notions used in the statements\<close>

text \<open>
  The round trip of the specification: assemble the members, flush to a file that can be
  opened, read that file back into an empty codec, and collect what the enumeration
  visits. \<open>None\<close> when a step fails or does not return.
\<close>

definition round_trip :: "(byte list \<Rightarrow> 128 word) \<Rightarrow> byte_buffer list \<Rightarrow> byte list list option" where
  "round_trip MD5 member_bufs =
     flush_to_file (load_members_from MD5 member_bufs) True \<bind> (\<lambda>(werr, _, written).
       read_from_file MD5 empty_archive written \<bind> (\<lambda>(rerr, loaded, _).
         if werr = write_success \<and> rerr = read_success
         then Some (for_each (enumerate loaded)) else None))"

text \<open>
  A stand-in for the digest primitive, for statements about one concrete input: the
  theorems below hold for every function \<open>MD5\<close>.
\<close>

definition length_digest :: "byte list \<Rightarrow> 128 word" where
  "length_digest buf = of_nat (length buf)"

text \<open>One round of each cipher loop, as a function on the state.\<close>

definition encrypt_round :: "uint32_t list \<Rightarrow> uint32_t \<times> uint32_t \<times> uint32_t
    \<Rightarrow> uint32_t \<times> uint32_t \<times> uint32_t" where
  "encrypt_round k s = (case s of (sm, v0, v1) \<Rightarrow>
     (let sm = sm + delta;
          v0 = v0 + ((push_bit 4 v1 + k ! 0) XOR (v1 + sm) XOR (drop_bit 5 v1 + k ! 1));
          v1 = v1 + ((push_bit 4 v0 + k ! 2) XOR (v0 + sm) XOR (drop_bit 5 v0 + k ! 3))
      in (sm, v0, v1)))"

definition decrypt_round :: "uint32_t list \<Rightarrow> uint32_t \<times> uint32_t \<times> uint32_t
    \<Rightarrow> uint32_t \<times> uint32_t \<times> uint32_t" where
  "decrypt_round k s = (case s of (sm, v0, v1) \<Rightarrow>
     (let v1 = v1 - ((push_bit 4 v0 + k ! 2) XOR (v0 + sm) XOR (drop_bit 5 v0 + k ! 3));
          v0 = v0 - ((push_bit 4 v1 + k ! 0) XOR (v1 + sm) XOR (drop_bit 5 v1 + k ! 1));
          sm = sm - delta
      in (sm, v0, v1)))"

text \<open>
  The partial-block policy in the words of the specification. \<open>on_block f p\<close> replaces
  the eight bytes at offset \<open>p\<close> by their image under \<open>f\<close>;
  \<open>complete_blocks_front_to_back\<close> does so for every complete block, from the first to the
  last; \<open>final_block\<close> for the eight bytes that end at the end of the buffer.
\<close>

definition on_block :: "(byte list \<Rightarrow> byte list) \<Rightarrow> nat \<Rightarrow> byte list \<Rightarrow> byte list" where
  "on_block f p buf = take p buf @ f (take 8 (drop p buf)) @ drop (p + 8) buf"

definition complete_blocks_front_to_back :: "(byte list \<Rightarrow> byte list) \<Rightarrow> byte list \<Rightarrow> byte list" where
  "complete_blocks_front_to_back f buf = fold (\<lambda>i. on_block f (8 * i)) [0..<length buf div 8] buf"

definition final_block :: "(byte list \<Rightarrow> byte list) \<Rightarrow> byte list \<Rightarrow> byte list" where
  "final_block f buf = on_block f (length buf - 8) buf"

definition encrypt_policy :: "tea \<Rightarrow> byte list \<Rightarrow> byte list" where
  "encrypt_policy scheme buf =
     (let b = complete_blocks_front_to_back (encrypt_chunk scheme) buf
      in if length buf mod 8 \<noteq> 0 then final_block (encrypt_chunk scheme) b else b)"

definition decrypt_policy :: "tea \<Rightarrow> byte list \<Rightarrow> byte list" where
  "decrypt_policy scheme buf =
     (let b = (if length buf mod 8 \<noteq> 0 then final_block (decrypt_chunk scheme) buf else buf);
          n = length buf - length buf mod 8
      in complete_blocks_front_to_back (decrypt_chunk scheme) (take n b) @ drop n b)"

text \<open>
  What the two buffer routines compute, as total functions: \<open>leading_blocks f n\<close> maps
  \<open>f\<close> over the first \<open>n\<close> blocks of eight bytes.
\<close>

fun leading_blocks :: "(byte list \<Rightarrow> byte list) \<Rightarrow> nat \<Rightarrow> byte list \<Rightarrow> byte list" where
  "leading_blocks f 0 buf = buf"
| "leading_blocks f (Suc n) buf = f (take 8 buf) @ leading_blocks f n (drop 8 buf)"

definition encrypted :: "tea \<Rightarrow> byte list \<Rightarrow> byte list" where
  "encrypted s buf =
     (if length buf < 8 then buf
      else let b = leading_blocks (encrypt_chunk s) (length buf div 8) buf
           in if length buf mod 8 \<noteq> 0 then on_block (encrypt_chunk s) (length buf - 8) b else b)"

definition decrypted :: "tea \<Rightarrow> byte list \<Rightarrow> byte list" where
  "decrypted s buf =
     (if length buf < 8 then buf
      else let b = (if length buf mod 8 \<noteq> 0
                    then on_block (decrypt_chunk s) (length buf - 8) buf else buf)
           in leading_blocks (decrypt_chunk s) (length buf div 8) b)"

text \<open>
  The bytes of one chunk, a 32-bit little-endian length and the payload, and of a chunk
  region, for given payloads.
\<close>

definition chunk_bytes :: "byte list \<Rightarrow> byte list" where
  "chunk_bytes m = serialize little (of_nat (length m)) @ m"

definition chunk_region :: "byte list list \<Rightarrow> byte list" where
  "chunk_region ms = concat (map chunk_bytes ms)"

section \<open>Byte order: the two helpers invert each other\<close>

lemma length_serialize [simp]: "length (serialize e v) = 4"
  by (cases e) (simp_all add: serialize_def)

lemma le_bytes_of_word:
  fixes a b c d :: byte and w :: uint32_t
  assumes "w = ucast a OR push_bit 8 (ucast b) OR push_bit 16 (ucast c) OR push_bit 24 (ucast d)"
  shows "ucast w = a" "ucast (drop_bit 8 w) = b" "ucast (drop_bit 16 w) = c"
    "ucast (drop_bit 24 w) = d"
  unfolding assms
  by (rule bit_word_eqI; auto simp add: bit_simps dest: bit_imp_le_length)+

lemma word_of_le_bytes:
  fixes w :: uint32_t
  shows "ucast (ucast w :: byte) OR push_bit 8 (ucast (ucast (drop_bit 8 w) :: byte))
      OR push_bit 16 (ucast (ucast (drop_bit 16 w) :: byte))
      OR push_bit 24 (ucast (ucast (drop_bit 24 w) :: byte)) = w"
proof (rule bit_word_eqI)
  fix n assume n: "n < LENGTH(32)"
  consider "n < 8" | "8 \<le> n" "n < 16" | "16 \<le> n" "n < 24" | "24 \<le> n" "n < 32"
    using n by fastforce
  then show "bit (ucast (ucast w :: byte) OR push_bit 8 (ucast (ucast (drop_bit 8 w) :: byte))
      OR push_bit 16 (ucast (ucast (drop_bit 16 w) :: byte))
      OR push_bit 24 (ucast (ucast (drop_bit 24 w) :: byte)) :: uint32_t) n = bit w n"
    by cases (auto simp add: bit_simps)
qed

lemma deserialize_serialize [simp]: "deserialize e (serialize e v @ rest) = v"
  by (cases e) (simp_all add: deserialize_def serialize_def upt_rec word_of_le_bytes)

lemma four_bytes:
  assumes "4 \<le> length (p :: 'a list)"
  obtains a b c d rest where "p = a # b # c # d # rest"
proof -
  from assms obtain a p1 where 1: "p = a # p1" by (cases p) auto
  with assms obtain b p2 where 2: "p1 = b # p2" by (cases p1) auto
  with 1 assms obtain c p3 where 3: "p2 = c # p3" by (cases p2) auto
  with 1 2 assms obtain d p4 where 4: "p3 = d # p4" by (cases p3) auto
  from 1 2 3 4 that show thesis by simp
qed

lemma serialize_deserialize:
  assumes "4 \<le> length p"
  shows "serialize e (deserialize e p) = take 4 p"
proof -
  from assms obtain a b c d rest where p: "p = a # b # c # d # rest"
    by (rule four_bytes)
  define w where "w = deserialize e p"
  have ser:
    "serialize little w = [ucast w, ucast (drop_bit 8 w), ucast (drop_bit 16 w), ucast (drop_bit 24 w)]"
    "serialize big w = [ucast (drop_bit 24 w), ucast (drop_bit 16 w), ucast (drop_bit 8 w), ucast w]"
    by (simp_all add: serialize_def upt_rec)
  show ?thesis
  proof (cases e)
    case little
    have "w = ucast a OR push_bit 8 (ucast b) OR push_bit 16 (ucast c) OR push_bit 24 (ucast d)"
      unfolding w_def by (simp add: little p deserialize_def)
    from le_bytes_of_word [OF this] have "serialize little w = [a, b, c, d]"
      unfolding ser by simp
    then show ?thesis
      unfolding w_def little by (simp add: p)
  next
    case big
    have "w = ucast d OR push_bit 8 (ucast c) OR push_bit 16 (ucast b) OR push_bit 24 (ucast a)"
      unfolding w_def by (simp add: big p deserialize_def)
    from le_bytes_of_word [OF this] have "serialize big w = [a, b, c, d]"
      unfolding ser by simp
    then show ?thesis
      unfolding w_def big by (simp add: p)
  qed
qed

section \<open>The cipher on one chunk\<close>

lemma length_encrypt_chunk [simp]: "length (encrypt_chunk scheme chunk) = 8"
  by (simp add: encrypt_chunk_def Let_def split: prod.splits)

lemma length_decrypt_chunk [simp]: "length (decrypt_chunk scheme chunk) = 8"
  by (simp add: decrypt_chunk_def Let_def split: prod.splits)

lemma decrypt_encrypt_round: "decrypt_round k (encrypt_round k s) = s"
  by (cases s) (simp add: encrypt_round_def decrypt_round_def Let_def)

lemma encrypt_loop_funpow: "encrypt_loop k i s = (encrypt_round k ^^ (32 - i)) s"
proof (induction k i s rule: encrypt_loop.induct)
  case (1 k i sm v0 v1)
  show ?case
  proof (cases "i < 32")
    case True
    then have "32 - i = Suc (32 - (i + 1))" by simp
    then show ?thesis
      using True 1
      by (simp add: Let_def encrypt_round_def funpow_swap1 encrypt_loop.simps [of k i])
  next
    case False
    then show ?thesis by (simp add: encrypt_loop.simps [of k i])
  qed
qed

lemma decrypt_loop_funpow: "decrypt_loop k i s = (decrypt_round k ^^ (32 - i)) s"
proof (induction k i s rule: decrypt_loop.induct)
  case (1 k i sm v0 v1)
  show ?case
  proof (cases "i < 32")
    case True
    then have "32 - i = Suc (32 - (i + 1))" by simp
    then show ?thesis
      using True 1
      by (simp add: Let_def decrypt_round_def funpow_swap1 decrypt_loop.simps [of k i])
  next
    case False
    then show ?thesis by (simp add: decrypt_loop.simps [of k i])
  qed
qed

lemma funpow_inverse:
  fixes f g :: "'a \<Rightarrow> 'a"
  assumes "\<And>x. g (f x) = x"
  shows "(g ^^ n) ((f ^^ n) x) = x"
proof (induction n)
  case 0
  show ?case by simp
next
  case (Suc n)
  have "(g ^^ Suc n) ((f ^^ Suc n) x) = (g ^^ n) (g (f ((f ^^ n) x)))"
    by (simp add: funpow_swap1 [of g])
  then show ?case using Suc assms by simp
qed

lemma fst_encrypt_round: "fst (encrypt_round k s) = fst s + delta"
  by (cases s) (simp add: encrypt_round_def Let_def)

lemma encrypt_round_sum: "fst ((encrypt_round k ^^ n) s) = fst s + of_nat n * delta"
  by (induction n) (simp_all add: fst_encrypt_round algebra_simps)

text \<open>
  After 32 rounds the accumulator holds \<open>32 * delta = 0xC6EF3720\<close> (modulo \<open>2 ^ 32\<close>), the
  value \<^verbatim>\<open>decrypt_chunk\<close> starts from.
\<close>

lemma decrypt_encrypt_loop:
  assumes "encrypt_loop k 0 (0, v0, v1) = (sm, w0, w1)"
  shows "decrypt_loop k 0 (0xC6EF3720, w0, w1) = (0, v0, v1)"
proof -
  have "fst (encrypt_loop k 0 (0, v0, v1)) = of_nat 32 * delta"
    unfolding encrypt_loop_funpow
    using encrypt_round_sum [where k = k and n = 32 and s = "(0, v0, v1)"] by simp
  then have sm: "sm = 0xC6EF3720"
    unfolding assms by (simp add: delta_def)
  have "decrypt_loop k 0 (encrypt_loop k 0 (0, v0, v1)) = (0, v0, v1)"
    unfolding encrypt_loop_funpow decrypt_loop_funpow
    by (rule funpow_inverse) (rule decrypt_encrypt_round)
  then show ?thesis
    unfolding assms sm .
qed

lemma decrypt_encrypt_chunk:
  assumes "8 \<le> length chunk"
  shows "decrypt_chunk scheme (encrypt_chunk scheme chunk) = take 8 chunk"
proof -
  let ?e = "endian scheme"
  obtain sm w0 w1 where enc:
    "encrypt_loop (key scheme) 0 (0, deserialize ?e chunk, deserialize ?e (drop 4 chunk)) = (sm, w0, w1)"
    by (metis prod_cases3)
  have c: "encrypt_chunk scheme chunk = serialize ?e w0 @ serialize ?e w1"
    by (simp add: encrypt_chunk_def enc)
  have "decrypt_chunk scheme (serialize ?e w0 @ serialize ?e w1)
      = serialize ?e (deserialize ?e chunk) @ serialize ?e (deserialize ?e (drop 4 chunk))"
    using deserialize_serialize [of ?e w1 "[]"]
    by (simp add: decrypt_chunk_def decrypt_encrypt_loop [OF enc])
  also have "\<dots> = take 4 chunk @ take 4 (drop 4 chunk)"
    using assms by (simp add: serialize_deserialize)
  also have "\<dots> = take 8 chunk"
    using take_add [of 4 4 chunk] by simp
  finally show ?thesis unfolding c .
qed

section \<open>The cipher on a whole buffer\<close>

lemma in_place_Some:
  "p + 8 \<le> length mem \<Longrightarrow> in_place f p mem = Some (on_block f p mem)"
  by (simp add: in_place_def on_block_def chunk_size_def)

lemma in_place_append:
  "8 \<le> length rest \<Longrightarrow>
   in_place f (length pre) (pre @ rest) = Some ((pre @ f (take 8 rest)) @ drop 8 rest)"
  by (simp add: in_place_def chunk_size_def)

lemma encrypt_chunks_leading:
  "8 * n \<le> length rest \<Longrightarrow>
   encrypt_chunks s (length pre) (length pre + 8 * n) (pre @ rest) =
     Some (pre @ leading_blocks (encrypt_chunk s) n rest)"
proof (induction n arbitrary: pre rest)
  case 0
  show ?case by (subst encrypt_chunks.simps) simp
next
  case (Suc n)
  let ?pre = "pre @ encrypt_chunk s (take 8 rest)"
  from Suc.prems have r: "8 \<le> length rest" "8 * n \<le> length (drop 8 rest)" by simp_all
  have "encrypt_chunks s (length ?pre) (length ?pre + 8 * n) (?pre @ drop 8 rest) =
          Some (?pre @ leading_blocks (encrypt_chunk s) n (drop 8 rest))"
    by (rule Suc.IH [OF r(2)])
  then show ?case
    by (subst encrypt_chunks.simps) (simp add: in_place_append [OF r(1)] chunk_size_def add.assoc)
qed

lemma decrypt_chunks_leading:
  "8 * n \<le> length rest \<Longrightarrow>
   decrypt_chunks s (length pre) (length pre + 8 * n) (pre @ rest) =
     Some (pre @ leading_blocks (decrypt_chunk s) n rest)"
proof (induction n arbitrary: pre rest)
  case 0
  show ?case by (subst decrypt_chunks.simps) simp
next
  case (Suc n)
  let ?pre = "pre @ decrypt_chunk s (take 8 rest)"
  from Suc.prems have r: "8 \<le> length rest" "8 * n \<le> length (drop 8 rest)" by simp_all
  have "decrypt_chunks s (length ?pre) (length ?pre + 8 * n) (?pre @ drop 8 rest) =
          Some (?pre @ leading_blocks (decrypt_chunk s) n (drop 8 rest))"
    by (rule Suc.IH [OF r(2)])
  then show ?case
    by (subst decrypt_chunks.simps) (simp add: in_place_append [OF r(1)] chunk_size_def add.assoc)
qed

lemma length_leading_blocks:
  "(\<And>x. length (f x) = 8) \<Longrightarrow> 8 * n \<le> length buf \<Longrightarrow>
   length (leading_blocks f n buf) = length buf"
  by (induction n arbitrary: buf) simp_all

lemma leading_blocks_inverse:
  assumes "\<And>x. 8 \<le> length x \<Longrightarrow> g (f x) = take 8 x" and "\<And>x. length (f x) = 8"
  shows "8 * n \<le> length buf \<Longrightarrow> leading_blocks g n (leading_blocks f n buf) = buf"
proof (induction n arbitrary: buf)
  case 0
  show ?case by simp
next
  case (Suc n)
  then have "8 \<le> length buf" "8 * n \<le> length (drop 8 buf)" by simp_all
  then show ?case using Suc.IH [of "drop 8 buf"] assms by simp
qed

lemma length_on_block:
  "(\<And>x. length (f x) = 8) \<Longrightarrow> p + 8 \<le> length buf \<Longrightarrow> length (on_block f p buf) = length buf"
  by (simp add: on_block_def)

lemma on_block_inverse:
  assumes "\<And>x. 8 \<le> length x \<Longrightarrow> g (f x) = take 8 x" and "\<And>x. length (f x) = 8"
    and "p + 8 \<le> length buf"
  shows "on_block g p (on_block f p buf) = buf"
proof -
  have "on_block g p (on_block f p buf) = take p buf @ take 8 (drop p buf) @ drop (p + 8) buf"
    using assms by (simp add: on_block_def)
  also have "\<dots> = take p buf @ drop p buf"
    by (metis append_take_drop_id drop_drop add.commute)
  finally show ?thesis by simp
qed

text \<open>Both buffer routines return, with the result the total functions describe.\<close>

lemma encrypt_buffer_encrypted: "encrypt_buffer s buf = Some (encrypted s buf)"
proof (cases "length buf < 8")
  case True
  then show ?thesis by (simp add: encrypt_buffer_def encrypted_def chunk_size_def)
next
  case False
  let ?n = "length buf div 8"
  let ?b = "leading_blocks (encrypt_chunk s) ?n buf"
  have end': "length buf - length buf mod 8 = 8 * ?n"
    by (simp add: minus_mod_eq_mult_div)
  have n: "8 * ?n \<le> length buf" by simp
  have loop: "encrypt_chunks s 0 (8 * ?n) buf = Some ?b"
    using encrypt_chunks_leading [OF n, of s "[]"] by simp
  have len: "length ?b = length buf"
    by (rule length_leading_blocks [OF _ n]) simp
  have tail: "in_place (encrypt_chunk s) (length buf - 8) ?b
      = Some (on_block (encrypt_chunk s) (length buf - 8) ?b)"
    using False by (intro in_place_Some) (simp add: len)
  show ?thesis
    using False
    by (simp add: encrypt_buffer_def encrypted_def chunk_size_def Let_def end' loop tail)
qed

lemma decrypt_buffer_decrypted: "decrypt_buffer s buf = Some (decrypted s buf)"
proof (cases "length buf < 8")
  case True
  then show ?thesis by (simp add: decrypt_buffer_def decrypted_def chunk_size_def)
next
  case False
  let ?n = "length buf div 8"
  have end': "length buf - length buf mod 8 = 8 * ?n"
    by (simp add: minus_mod_eq_mult_div)
  have loop: "decrypt_chunks s 0 (8 * ?n) b = Some (leading_blocks (decrypt_chunk s) ?n b)"
    if "length b = length buf" for b
  proof -
    from that have "8 * ?n \<le> length b" by simp
    from decrypt_chunks_leading [OF this, of s "[]"] show ?thesis by simp
  qed
  from False have ne: "buf \<noteq> []" by auto
  show ?thesis
  proof (cases "length buf mod 8 = 0")
    case True
    then have "8 * ?n = length buf" by presburger
    with loop [of buf]
    have "decrypt_chunks s 0 (length buf) buf = Some (leading_blocks (decrypt_chunk s) ?n buf)"
      by simp
    then show ?thesis
      using False True ne
      by (simp add: decrypt_buffer_def decrypted_def chunk_size_def Let_def)
  next
    case tail: False
    let ?b = "on_block (decrypt_chunk s) (length buf - 8) buf"
    have "in_place (decrypt_chunk s) (length buf - 8) buf = Some ?b"
      using False by (intro in_place_Some) simp
    moreover have "length ?b = length buf"
      using False by (simp add: length_on_block)
    ultimately show ?thesis
      using False tail ne
      by (simp add: decrypt_buffer_def decrypted_def chunk_size_def Let_def end' loop)
  qed
qed

lemma length_encrypted [simp]: "length (encrypted s buf) = length buf"
proof -
  have "length (leading_blocks (encrypt_chunk s) (length buf div 8) buf) = length buf"
    by (rule length_leading_blocks) simp_all
  then show ?thesis
    by (simp add: encrypted_def Let_def length_on_block)
qed

lemma decrypted_encrypted: "decrypted s (encrypted s buf) = buf"
proof (cases "length buf < 8")
  case True
  then show ?thesis by (simp add: encrypted_def decrypted_def)
next
  case False
  let ?n = "length buf div 8"
  let ?E = "encrypt_chunk s" and ?D = "decrypt_chunk s"
  let ?b = "leading_blocks ?E ?n buf"
  have len: "length ?b = length buf"
    by (rule length_leading_blocks) simp_all
  have front: "leading_blocks ?D ?n ?b = buf"
    by (rule leading_blocks_inverse) (simp_all add: decrypt_encrypt_chunk)
  have tail: "on_block ?D (length buf - 8) (on_block ?E (length buf - 8) ?b) = ?b"
    using False by (intro on_block_inverse) (simp_all add: decrypt_encrypt_chunk len)
  have "decrypted s (encrypted s buf) =
      leading_blocks ?D ?n (if length buf mod 8 \<noteq> 0
         then on_block ?D (length buf - 8) (encrypted s buf) else encrypted s buf)"
    using False by (simp add: decrypted_def)
  also have "\<dots> = leading_blocks ?D ?n ?b"
    using False by (simp add: encrypted_def Let_def tail)
  finally show ?thesis using front by simp
qed

lemma decrypt_encrypt_buffer: "encrypt_buffer s buf \<bind> decrypt_buffer s = Some buf"
  by (simp add: encrypt_buffer_encrypted decrypt_buffer_decrypted decrypted_encrypted)

text \<open>
  Claim C2. For every buffer, of any length and contents, decrypting with \<open>h1_tea\<close> what
  \<open>encrypt_buffer\<close> produced with \<open>h1_tea\<close> gives the buffer back; and on a buffer
  shorter than 8 bytes both routines return and leave the buffer as it is.
\<close>

theorem cipher_involution:
  "(encrypt_buffer h1_tea buf \<bind> decrypt_buffer h1_tea) = Some buf
   \<and> (length buf < 8 \<longrightarrow>
        encrypt_buffer h1_tea buf = Some buf \<and> decrypt_buffer h1_tea buf = Some buf)"
  by (simp add: decrypt_encrypt_buffer)
     (simp add: encrypt_buffer_def decrypt_buffer_def chunk_size_def)

theorem cipher_involution_witness:
  "(encrypt_buffer h1_tea [1, 2, 3] \<bind> decrypt_buffer h1_tea) = Some [1, 2, 3]
   \<and> length [1, 2, 3 :: byte] < 8
   \<and> encrypt_buffer h1_tea [1, 2, 3] = Some [1, 2, 3]
   \<and> decrypt_buffer h1_tea [1, 2, 3] = Some [1, 2, 3]"
  using cipher_involution [of "[1, 2, 3]"] by simp

section \<open>The partial-block policy\<close>

lemma on_block_append:
  "8 \<le> length rest \<Longrightarrow>
   on_block f (length pre) (pre @ rest) = (pre @ f (take 8 rest)) @ drop 8 rest"
  by (simp add: on_block_def)

lemma fold_on_block_leading:
  assumes "\<And>x. length (f x) = 8"
  shows "length pre = 8 * j \<Longrightarrow> 8 * n \<le> length rest \<Longrightarrow>
    fold (\<lambda>i. on_block f (8 * i)) [j..<j + n] (pre @ rest) = pre @ leading_blocks f n rest"
proof (induction n arbitrary: j pre rest)
  case 0
  show ?case by simp
next
  case (Suc n)
  let ?pre = "pre @ f (take 8 rest)"
  from Suc.prems have r: "8 \<le> length rest" "8 * n \<le> length (drop 8 rest)" by simp_all
  have pre: "length ?pre = 8 * Suc j" using Suc.prems assms by simp
  have "[j..<j + Suc n] = j # [Suc j..<Suc j + n]"
    by (simp add: upt_rec)
  then have "fold (\<lambda>i. on_block f (8 * i)) [j..<j + Suc n] (pre @ rest)
      = fold (\<lambda>i. on_block f (8 * i)) [Suc j..<Suc j + n] (on_block f (length pre) (pre @ rest))"
    using Suc.prems(1) by simp
  also have "\<dots> = fold (\<lambda>i. on_block f (8 * i)) [Suc j..<Suc j + n] (?pre @ drop 8 rest)"
    by (simp only: on_block_append [OF r(1)])
  also have "\<dots> = ?pre @ leading_blocks f n (drop 8 rest)"
    by (rule Suc.IH [OF pre r(2)])
  finally show ?case by simp
qed

lemma complete_blocks_leading:
  assumes "\<And>x. length (f x) = 8"
  shows "complete_blocks_front_to_back f buf = leading_blocks f (length buf div 8) buf"
  using fold_on_block_leading [OF assms, of "[]" 0 "length buf div 8" buf]
  by (simp add: complete_blocks_front_to_back_def)

lemma leading_blocks_take_drop:
  "8 * n \<le> length buf \<Longrightarrow>
   leading_blocks f n (take (8 * n) buf) @ drop (8 * n) buf = leading_blocks f n buf"
proof (induction n arbitrary: buf)
  case 0
  show ?case by simp
next
  case (Suc n)
  then have "8 * n \<le> length (drop 8 buf)" by simp
  from Suc.IH [OF this] show ?case
    by (simp add: drop_take add.commute)
qed

lemma encrypted_policy:
  "8 \<le> length buf \<Longrightarrow> encrypted s buf = encrypt_policy s buf"
  by (simp add: encrypted_def encrypt_policy_def final_block_def complete_blocks_leading Let_def
      length_leading_blocks)

lemma decrypted_policy:
  assumes "8 \<le> length buf"
  shows "decrypted s buf = decrypt_policy s buf"
proof -
  let ?D = "decrypt_chunk s"
  define b where "b = (if length buf mod 8 \<noteq> 0 then final_block ?D buf else buf)"
  define q where "q = length buf div 8"
  have len: "length b = length buf"
    using assms by (simp add: b_def final_block_def length_on_block)
  have n: "length buf - length buf mod 8 = 8 * q"
    by (simp add: q_def minus_mod_eq_mult_div)
  have q: "8 * q \<le> length b"
    by (simp add: len q_def)
  then have "length (take (8 * q) b) div 8 = q"
    by simp
  then have "complete_blocks_front_to_back ?D (take (8 * q) b) @ drop (8 * q) b
      = leading_blocks ?D q (take (8 * q) b) @ drop (8 * q) b"
    by (simp add: complete_blocks_leading)
  also have "\<dots> = leading_blocks ?D q b"
    by (rule leading_blocks_take_drop [OF q])
  finally have "complete_blocks_front_to_back ?D (take (8 * q) b) @ drop (8 * q) b
      = leading_blocks ?D q b" .
  moreover have "decrypt_policy s buf
      = complete_blocks_front_to_back ?D (take (8 * q) b) @ drop (8 * q) b"
    unfolding decrypt_policy_def Let_def n b_def by (rule refl)
  moreover have "decrypted s buf = leading_blocks ?D q b"
    using assms by (simp add: decrypted_def b_def q_def final_block_def)
  ultimately show ?thesis by simp
qed

text \<open>
  Claim C3. On a buffer of at least 8 bytes, \<open>encrypt_buffer\<close> returns what the policy of
  the specification describes: every complete 8-byte block encrypted, front to back, and
  then, exactly when the length is not a multiple of 8, the last 8 bytes of the buffer
  encrypted once more. \<open>decrypt_buffer\<close> returns the inverse order: first, exactly when the
  length is not a multiple of 8, the last 8 bytes decrypted, then every complete block of
  the buffer cut at the last whole-block boundary decrypted, front to back, the bytes
  after the boundary kept.
\<close>

theorem buffer_policy:
  assumes "8 \<le> length buf"
  shows "encrypt_buffer scheme buf = Some (encrypt_policy scheme buf)
       \<and> decrypt_buffer scheme buf = Some (decrypt_policy scheme buf)"
  using assms
  by (simp add: encrypt_buffer_encrypted decrypt_buffer_decrypted encrypted_policy decrypted_policy)

theorem buffer_policy_witness:
  "encrypt_buffer h1_tea [1, 2, 3, 4, 5, 6, 7, 8, 9, 10, 11]
     = Some (encrypt_policy h1_tea [1, 2, 3, 4, 5, 6, 7, 8, 9, 10, 11])
   \<and> decrypt_buffer h1_tea [1, 2, 3, 4, 5, 6, 7, 8, 9, 10, 11]
     = Some (decrypt_policy h1_tea [1, 2, 3, 4, 5, 6, 7, 8, 9, 10, 11])"
  using buffer_policy [of "[1, 2, 3, 4, 5, 6, 7, 8, 9, 10, 11]" h1_tea] by simp

section \<open>The chunk enumerator\<close>

text \<open>
  Claim C4. For every remaining view of the enumerator: \<open>is_at_end\<close> holds exactly when
  the view is empty, and then \<open>has_error\<close> is false; on a non-empty view \<open>has_error\<close> is
  true exactly when the view holds fewer than 4 bytes or the little-endian 32-bit length
  \<open>L\<close> read at the cursor has \<open>L + 4\<close> greater than the size of the view; and \<open>finished\<close>
  is \<open>is_at_end\<close> or \<open>has_error\<close>.
\<close>

theorem enumerator_status:
  "(is_at_end rng \<longleftrightarrow> rng = [])
   \<and> (is_at_end rng \<longrightarrow> \<not> has_error rng)
   \<and> (\<not> is_at_end rng \<longrightarrow>
        (has_error rng \<longleftrightarrow> length rng < 4 \<or> unat (deserialize little rng) + 4 > length rng))
   \<and> (finished rng \<longleftrightarrow> is_at_end rng \<or> has_error rng)"
  by (simp add: is_at_end_def has_error_def finished_def Let_def)

theorem enumerator_status_witness:
  "\<not> is_at_end [5, 0, 0, 0] \<and> has_error [5, 0, 0, 0] \<and> finished [5, 0, 0, 0]
   \<and> is_at_end [] \<and> \<not> has_error []"
  using enumerator_status [of "[5, 0, 0, 0]"] enumerator_status [of "[]"]
  by (simp add: deserialize_def)

lemma finished_Nil [simp]: "finished []" "\<not> has_error []"
  by (simp_all add: finished_def is_at_end_def has_error_def)

lemma validate_members_stop:
  "finished e \<Longrightarrow> validate_members k e = (k, e)"
  by (subst validate_members.simps) simp

lemma for_each_stop: "finished e \<Longrightarrow> for_each e = []"
  by (subst for_each.simps) simp

lemma length_chunk_bytes [simp]: "length (chunk_bytes m) = 4 + length m"
  by (simp add: chunk_bytes_def)

lemma unat_length_word:
  "length m < 2 ^ 32 \<Longrightarrow> unat (of_nat (length m) :: uint32_t) = length m"
  by (simp add: unat_of_nat)

text \<open>One step of the enumerator over a chunk whose length fits its header.\<close>

lemma chunk_step:
  assumes "length m < 2 ^ 32"
  shows "\<not> finished (chunk_bytes m @ rest)"
    and "advance (chunk_bytes m @ rest) = rest"
    and "enumerator_data (chunk_bytes m @ rest) = m"
proof -
  let ?rng = "chunk_bytes m @ rest"
  have d: "unat (deserialize little ?rng) = length m"
    using assms by (simp add: chunk_bytes_def unat_length_word)
  have l: "length ?rng = 4 + length m + length rest"
    by simp
  then have ne: "?rng \<noteq> []"
    by (metis add_is_0 length_0_conv zero_neq_numeral)
  show nf: "\<not> finished ?rng"
    unfolding finished_def has_error_def is_at_end_def Let_def d l
    using ne by simp
  show "advance ?rng = rest"
    unfolding advance_def Let_def d l using nf by (simp add: chunk_bytes_def)
  show "enumerator_data ?rng = m"
    unfolding enumerator_data_def Let_def d using nf by (simp add: chunk_bytes_def)
qed

lemma validate_members_region:
  "\<forall>m \<in> set ms. length m < 2 ^ 32 \<Longrightarrow>
   validate_members k (chunk_region ms @ rest) = validate_members (k + length ms) rest"
proof (induction ms arbitrary: k)
  case Nil
  show ?case by (simp add: chunk_region_def)
next
  case (Cons m ms)
  then have m: "length m < 2 ^ 32" by simp
  have "validate_members k (chunk_bytes m @ chunk_region ms @ rest)
      = validate_members (k + 1) (chunk_region ms @ rest)"
    by (subst validate_members.simps) (simp add: chunk_step [OF m])
  with Cons show ?case by (simp add: chunk_region_def)
qed

lemma for_each_region:
  "\<forall>m \<in> set ms. length m < 2 ^ 32 \<Longrightarrow>
   for_each (chunk_region ms @ rest) = ms @ for_each rest"
proof (induction ms)
  case Nil
  show ?case by (simp add: chunk_region_def)
next
  case (Cons m ms)
  then have m: "length m < 2 ^ 32" by simp
  have "for_each (chunk_bytes m @ chunk_region ms @ rest) = m # for_each (chunk_region ms @ rest)"
    by (subst for_each.simps) (simp add: chunk_step [OF m])
  with Cons show ?case by (simp add: chunk_region_def)
qed

text \<open>
  A payload whose length is a multiple of \<open>2 ^ 32\<close> gets the header 0: the enumerator
  then yields an empty member first.
\<close>

lemma for_each_wrapped_header:
  assumes "of_nat (length m) = (0 :: uint32_t)"
  shows "for_each (chunk_bytes m @ rest) = [] # for_each (advance (chunk_bytes m @ rest))"
proof -
  let ?rng = "chunk_bytes m @ rest"
  have d: "deserialize little ?rng = 0"
    using assms by (simp add: chunk_bytes_def)
  have l: "length ?rng = 4 + length m + length rest"
    by simp
  then have ne: "?rng \<noteq> []"
    by (metis add_is_0 length_0_conv zero_neq_numeral)
  have nf: "\<not> finished ?rng"
    unfolding finished_def has_error_def is_at_end_def Let_def d l
    using ne by simp
  have "enumerator_data ?rng = []"
    unfolding enumerator_data_def Let_def d using nf by simp
  with nf show ?thesis
    by (subst for_each.simps) simp
qed

section \<open>Reading a file\<close>

lemma length_decrypted [simp]: "length (decrypted s buf) = length buf"
proof -
  have "length (leading_blocks (decrypt_chunk s) (length buf div 8) b) = length b"
    if "length b = length buf" for b
    by (rule length_leading_blocks) (simp_all add: that)
  then show ?thesis
    by (simp add: decrypted_def Let_def length_on_block)
qed

lemma length_compute_md5_digest [simp]: "length (compute_md5_digest MD5 buf) = 32"
  by (simp add: compute_md5_digest_def Let_def length_concat comp_def sum_list_triv)

text \<open>
  Claim C6, as the code has it. An input of 1 to 33 bytes makes \<open>read_from_file\<close> fail
  with \<open>archive_data_is_corrupt\<close>; an input of 0 bytes makes it fail with
  \<open>could_not_open_file\<close>, because \<open>read_file\<close> returns the empty buffer for a file of
  size 0. In both cases the codec is left as it was and nothing is printed.
\<close>

theorem short_file_read:
  assumes "length contents \<le> 33"
  shows "read_from_file MD5 this (Some contents) =
     Some (if contents = [] then read_could_not_open_file else read_archive_data_is_corrupt,
           this, [])"
  using assms by (simp add: read_from_file_def read_file_def holds_data_def nbytes_def)

theorem short_file_read_witness:
  "length [1, 2, 3 :: byte] \<le> 33
   \<and> read_from_file length_digest empty_archive (Some [1, 2, 3])
       = Some (read_archive_data_is_corrupt, empty_archive, [])"
  using short_file_read [of "[1, 2, 3]" length_digest empty_archive] by simp

text \<open>
  Claim C6 as stated fails on the input of length 0: the error is \<open>could_not_open_file\<close>,
  not \<open>archive_data_is_corrupt\<close>.
\<close>

theorem empty_file_read_counterexample:
  "length ([] :: byte list) \<le> 33
   \<and> read_from_file length_digest empty_archive (Some [])
       = Some (read_could_not_open_file, empty_archive, [])
   \<and> read_could_not_open_file \<noteq> read_archive_data_is_corrupt"
  by (simp add: read_from_file_def read_file_def holds_data_def)

lemma read_from_file_cases:
  "read_from_file MD5 this f = Some (read_could_not_open_file, this, [])
   \<or> (\<exists>diag. read_from_file MD5 this f = Some (read_archive_data_is_corrupt, this, diag))
   \<or> (\<exists>this'. read_from_file MD5 this f = Some (read_success, this', []))"
  by (auto simp add: read_from_file_def Let_def decrypt_buffer_decrypted split: prod.splits)

text \<open>
  Claim C7. For every codec state and every input, \<open>read_from_file\<close> returns, and when
  the value it returns is not \<open>success\<close> the codec (held buffer and chunk-region view) is
  exactly what it was before the call.
\<close>

theorem read_failure_leaves_state:
  "\<exists>err this' diag. read_from_file MD5 this f = Some (err, this', diag)
     \<and> (err \<noteq> read_success \<longrightarrow> this' = this)"
  using read_from_file_cases [of MD5 this f] by auto

theorem read_failure_leaves_state_witness:
  "fst (the (read_from_file length_digest
        \<lparr>filebuf = Some (replicate 41 7), data = \<lparr>offset = 0, extent = 8\<rparr>\<rparr>
        (Some (replicate 40 0)))) \<noteq> read_success
   \<and> fst (snd (the (read_from_file length_digest
        \<lparr>filebuf = Some (replicate 41 7), data = \<lparr>offset = 0, extent = 8\<rparr>\<rparr>
        (Some (replicate 40 0)))))
      = \<lparr>filebuf = Some (replicate 41 7), data = \<lparr>offset = 0, extent = 8\<rparr>\<rparr>"
proof -
  let ?a = "\<lparr>filebuf = Some (replicate 41 7), data = \<lparr>offset = 0, extent = 8\<rparr>\<rparr>"
  have e: "fst (the (read_from_file length_digest ?a (Some (replicate 40 0))))
      = read_archive_data_is_corrupt"
    by code_simp
  from read_failure_leaves_state [of length_digest ?a "Some (replicate 40 0)"]
  obtain err this' diag
    where "read_from_file length_digest ?a (Some (replicate 40 0)) = Some (err, this', diag)"
      and "err \<noteq> read_success \<longrightarrow> this' = ?a"
    by blast
  with e show ?thesis by simp
qed

text \<open>
  What \<open>read_from_file\<close> does on a file that decrypts to a non-empty chunk region \<open>r\<close>
  followed by 33 bytes \<open>t\<close>.
\<close>

lemma read_from_file_decrypted:
  assumes "decrypted h1_tea contents = r @ t" and "length t = 33" and "r \<noteq> []"
  shows "read_from_file MD5 this (Some contents) =
     Some (if t \<noteq> compute_md5_digest MD5 r @ [0]
           then (read_archive_data_is_corrupt, this,
                 [md5_did_not_match (compute_md5_digest MD5 r) t])
           else if has_error (snd (validate_members 0 r))
           then (read_archive_data_is_corrupt, this,
                 [error_at_archive_member (fst (validate_members 0 r))])
           else (read_success,
                 \<lparr>filebuf = Some (r @ t), data = \<lparr>offset = 0, extent = length r\<rparr>\<rparr>, []))"
proof -
  have len: "length contents = length r + 33"
    using assms(1,2) length_decrypted [of h1_tea contents] by simp
  then have ne: "contents \<noteq> []" by auto
  have v1: "view (r @ t) \<lparr>offset = 0, extent = length r\<rparr> = r"
    and v2: "view (r @ t) \<lparr>offset = length r, extent = 33\<rparr> = t"
    using assms(2) by (simp_all add: view_def)
  have buf: "read_file (Some contents) = Some contents"
    using ne by (simp add: read_file_def)
  have sp: "span_first (whole (Some contents)) (nbytes (Some contents) - 33)
              = \<lparr>offset = 0, extent = length r\<rparr>"
       "span_last (whole (Some contents)) 33 = \<lparr>offset = length r, extent = 33\<rparr>"
    by (simp_all add: whole_def span_first_def span_last_def nbytes_def len)
  have dec: "decrypt_buffer h1_tea (buffer_range (Some contents)) = Some (r @ t)"
    by (simp add: buffer_range_def decrypt_buffer_decrypted assms(1))
  have big: "\<not> nbytes (Some contents) < 34"
    using assms(3) by (cases r) (simp_all add: nbytes_def len)
  show ?thesis
  proof (cases "t = compute_md5_digest MD5 r @ [0]")
    case True
    show ?thesis
      unfolding read_from_file_def buf Let_def sp dec
      using big by (simp add: holds_data_def v1 v2 True [symmetric] case_prod_beta)
  next
    case False
    then show ?thesis
      unfolding read_from_file_def buf Let_def sp dec
      using big by (simp add: holds_data_def v1 v2)
  qed
qed

section \<open>Flushing\<close>

text \<open>
  Claim C8. \<open>flush_to_file\<close> returns, the value it returns is \<open>no_data_to_write\<close> exactly
  when the chunk region of the codec is smaller than 4 bytes, and when it returns
  \<open>success\<close> the codec afterwards is the empty one: it holds no buffer and its
  chunk-region view is empty.
\<close>

theorem flush_no_data_and_reset:
  "\<exists>err this' written. flush_to_file this can_open = Some (err, this', written)
     \<and> (err = write_no_data_to_write \<longleftrightarrow> extent (data this) < 4)
     \<and> (err = write_success \<longrightarrow>
          this' = empty_archive \<and> \<not> holds_data (filebuf this') \<and> extent (data this') = 0)"
  by (simp add: flush_to_file_def encrypt_buffer_encrypted empty_archive_def holds_data_def)

theorem flush_no_data_and_reset_witness:
  "flush_to_file \<lparr>filebuf = Some (replicate 41 0), data = \<lparr>offset = 0, extent = 8\<rparr>\<rparr> True
     = Some (write_success, empty_archive, Some (encrypted h1_tea (replicate 41 0)))
   \<and> \<not> holds_data (filebuf empty_archive) \<and> extent (data empty_archive) = 0
   \<and> flush_to_file \<lparr>filebuf = Some [0, 0, 0], data = \<lparr>offset = 0, extent = 3\<rparr>\<rparr> True
     = Some (write_no_data_to_write,
             \<lparr>filebuf = Some [0, 0, 0], data = \<lparr>offset = 0, extent = 3\<rparr>\<rparr>, None)"
  using
    flush_no_data_and_reset
      [of "\<lparr>filebuf = Some (replicate 41 0), data = \<lparr>offset = 0, extent = 8\<rparr>\<rparr>" True]
    flush_no_data_and_reset
      [of "\<lparr>filebuf = Some [0, 0, 0], data = \<lparr>offset = 0, extent = 3\<rparr>\<rparr>" True]
  by (simp add: flush_to_file_def encrypt_buffer_encrypted buffer_range_def empty_archive_def
      holds_data_def)

text \<open>
  Claim C10. \<open>flush_to_file\<close> returns, and when the value it returns is a failure
  (\<open>no_data_to_write\<close> or \<open>could_not_open_file\<close>) the codec is exactly what it was before
  the call, its buffer not encrypted, and no file was written: the buffer is encrypted
  only after the file has been opened.
\<close>

theorem flush_failure_leaves_state:
  "\<exists>err this' written. flush_to_file this can_open = Some (err, this', written)
     \<and> (err \<noteq> write_success \<longrightarrow> this' = this \<and> written = None)"
  by (simp add: flush_to_file_def encrypt_buffer_encrypted)

theorem flush_failure_leaves_state_witness:
  "flush_to_file \<lparr>filebuf = Some (replicate 41 0), data = \<lparr>offset = 0, extent = 8\<rparr>\<rparr> False
     = Some (write_could_not_open_file,
             \<lparr>filebuf = Some (replicate 41 0), data = \<lparr>offset = 0, extent = 8\<rparr>\<rparr>, None)
   \<and> write_could_not_open_file \<noteq> write_success"
  using flush_failure_leaves_state
    [of "\<lparr>filebuf = Some (replicate 41 0), data = \<lparr>offset = 0, extent = 8\<rparr>\<rparr>" False]
  by (simp add: flush_to_file_def)

section \<open>Assembling an archive\<close>

lemma nbytes_range: "nbytes b = length (buffer_range b)"
  by (cases b) (simp_all add: nbytes_def buffer_range_def)

lemma write_at_append:
  "length bs \<le> length junk \<Longrightarrow>
   write_at (pre @ junk) (length pre) bs = (pre @ bs) @ drop (length bs) junk"
  by (simp add: write_at_def)

text \<open>
  The loop over the members writes the chunk region at the cursor, whatever the buffer
  held there before.
\<close>

lemma write_members_region:
  "length (chunk_region (map buffer_range ms)) \<le> length junk \<Longrightarrow>
   write_members ms (pre @ junk, length pre) =
     (pre @ chunk_region (map buffer_range ms)
        @ drop (length (chunk_region (map buffer_range ms))) junk,
      length pre + length (chunk_region (map buffer_range ms)))"
proof (induction ms arbitrary: pre junk)
  case Nil
  show ?case by (simp add: chunk_region_def)
next
  case (Cons m ms)
  define h where "h = serialize little (of_nat (nbytes m))"
  define p where "p = buffer_range m"
  define r where "r = chunk_region (map buffer_range ms)"
  have h: "length h = 4" and n: "nbytes m = length p"
    by (simp_all add: h_def p_def nbytes_range)
  have region: "chunk_region (buffer_range m # map buffer_range ms) = h @ p @ r"
    by (simp add: chunk_region_def chunk_bytes_def h_def p_def r_def nbytes_range)
  from Cons.prems have len: "4 + length p + length r \<le> length junk"
    by (simp add: region h)
  have 1: "write_at (pre @ junk) (length pre) h = (pre @ h) @ drop 4 junk"
    using len h write_at_append [of h junk pre] by simp
  have 2: "write_at ((pre @ h) @ drop 4 junk) (length pre + 4) p
      = (pre @ h @ p) @ drop (length p) (drop 4 junk)"
    using len h write_at_append [of p "drop 4 junk" "pre @ h"] by simp
  have 3: "write_members ms ((pre @ h @ p) @ drop (length p) (drop 4 junk), length (pre @ h @ p))
        = ((pre @ h @ p) @ r @ drop (length r) (drop (length p) (drop 4 junk)),
             length (pre @ h @ p) + length r)"
    unfolding r_def using len by (intro Cons.IH) (simp add: r_def)
  have "write_members (m # ms) (pre @ junk, length pre)
      = write_members ms (write_at (write_at (pre @ junk) (length pre) h) (length pre + 4) p,
           length pre + 4 + length p)"
    by (simp add: Let_def h_def p_def nbytes_range)
  also have "\<dots>
      = write_members ms ((pre @ h @ p) @ drop (length p) (drop 4 junk), length (pre @ h @ p))"
    unfolding 1 2 by (simp add: h add.assoc)
  also note 3
  finally show ?case
    by (simp add: region r_def [symmetric] h add.commute add.left_commute)
qed

lemma foldl_nbytes:
  "foldl (\<lambda>size buf. size + nbytes buf) k ms + 4 * length ms
     = k + length (chunk_region (map buffer_range ms))"
  by (induction ms arbitrary: k) (simp_all add: chunk_region_def nbytes_range)

lemma load_members_from_region:
  "load_members_from MD5 ms =
     \<lparr>filebuf = Some (chunk_region (map buffer_range ms)
                       @ compute_md5_digest MD5 (chunk_region (map buffer_range ms)) @ [0]),
      data = \<lparr>offset = 0, extent = length (chunk_region (map buffer_range ms))\<rparr>\<rparr>"
proof -
  let ?r = "chunk_region (map buffer_range ms)"
  have total: "foldl (\<lambda>size buf. size + nbytes buf) 0 ms + 4 * length ms + 33 = length ?r + 33"
    using foldl_nbytes [of 0 ms] by simp
  have w: "write_members ms (replicate (length ?r + 33) 0, 0) = (?r @ replicate 33 0, length ?r)"
    using write_members_region [of ms "replicate (length ?r + 33) 0" "[]"] by simp
  have t: "write_at (?r @ replicate 33 0) (length ?r) (compute_md5_digest MD5 ?r @ [0])
      = ?r @ compute_md5_digest MD5 ?r @ [0]"
    using write_at_append [of "compute_md5_digest MD5 ?r @ [0]" "replicate 33 0" ?r] by simp
  show ?thesis
    unfolding load_members_from_def total
    by (simp add: Let_def buffer_range_def nbytes_def whole_def span_first_def view_def w t)
qed

section \<open>The round trip\<close>

lemma chunk_region_not_Nil: "ms \<noteq> [] \<Longrightarrow> 4 \<le> length (chunk_region ms)"
  by (cases ms) (simp_all add: chunk_region_def)

text \<open>
  For a non-empty list of members the flush succeeds, the file read back decrypts to what
  was assembled and its digest matches; what is left is the validation of the chunks.
\<close>

lemma round_trip_region:
  assumes "ms \<noteq> []"
  shows "round_trip MD5 ms =
    (if has_error (snd (validate_members 0 (chunk_region (map buffer_range ms)))) then None
     else Some (for_each (chunk_region (map buffer_range ms))))"
proof -
  let ?r = "chunk_region (map buffer_range ms)"
  let ?t = "compute_md5_digest MD5 ?r @ [0]"
  from assms have r4: "4 \<le> length ?r"
    by (intro chunk_region_not_Nil) simp
  then have rne: "?r \<noteq> []" by auto
  have flush: "flush_to_file (load_members_from MD5 ms) True
      = Some (write_success, empty_archive, Some (encrypted h1_tea (?r @ ?t)))"
    using r4 by (simp add: flush_to_file_def load_members_from_region encrypt_buffer_encrypted
        buffer_range_def)
  have read: "read_from_file MD5 empty_archive (Some (encrypted h1_tea (?r @ ?t))) =
     Some (if has_error (snd (validate_members 0 ?r))
           then (read_archive_data_is_corrupt, empty_archive,
                 [error_at_archive_member (fst (validate_members 0 ?r))])
           else (read_success,
                 \<lparr>filebuf = Some (?r @ ?t), data = \<lparr>offset = 0, extent = length ?r\<rparr>\<rparr>, []))"
    using read_from_file_decrypted [of "encrypted h1_tea (?r @ ?t)" ?r ?t MD5 empty_archive] rne
    by (simp add: decrypted_encrypted)
  show ?thesis
    unfolding round_trip_def flush
    by (simp add: read enumerate_def buffer_range_def view_def)
qed

lemma round_trip_buffers:
  assumes "member_bufs \<noteq> []" and "\<forall>b \<in> set member_bufs. nbytes b < 2 ^ 32"
  shows "round_trip MD5 member_bufs = Some (map buffer_range member_bufs)"
proof -
  let ?ms = "map buffer_range member_bufs"
  from assms(2) have small: "\<forall>m \<in> set ?ms. length m < 2 ^ 32"
    by (simp add: nbytes_range)
  have "validate_members 0 (chunk_region ?ms) = (length ?ms, [])"
    using validate_members_region [OF small, of 0 "[]"] by (simp add: validate_members_stop)
  moreover have "for_each (chunk_region ?ms) = ?ms"
    using for_each_region [OF small, of "[]"] by (simp add: for_each_stop)
  ultimately show ?thesis
    by (simp add: round_trip_region [OF assms(1)])
qed

lemma round_trip_wrapped:
  assumes "of_nat (length m) = (0 :: uint32_t)" and "m \<noteq> []"
  shows "round_trip MD5 [Some m] \<noteq> Some [m]"
proof -
  have "for_each (chunk_region (map buffer_range [Some m])) \<noteq> [m]"
    using for_each_wrapped_header [OF assms(1), of "[]"] assms(2)
    by (simp add: chunk_region_def buffer_range_def)
  then show ?thesis
    by (simp add: round_trip_region)
qed

text \<open>
  Claim C1, as the code has it. For every non-empty list of byte buffers, each of fewer
  than \<open>2 ^ 32\<close> bytes (so that its size fits the 32-bit chunk header) and possibly empty
  or null: assembling them with \<open>load_members_from\<close>, flushing with \<open>flush_to_file\<close>,
  reading the written bytes back with \<open>read_from_file\<close> on an empty codec and enumerating
  all succeed and yield exactly the bytes of the original buffers, in order.
\<close>

theorem round_trip_members:
  assumes "member_bufs \<noteq> []" and "\<forall>b \<in> set member_bufs. nbytes b < 2 ^ 32"
  shows "round_trip MD5 member_bufs = Some (map buffer_range member_bufs)"
  using assms by (rule round_trip_buffers)

theorem round_trip_members_witness:
  "round_trip length_digest [Some [7], None, Some []] = Some [[7], [], []]"
  using round_trip_members [of "[Some [7], None, Some []]" length_digest]
  by (simp add: nbytes_def buffer_range_def)

text \<open>
  Claim C1 as stated, for every list of buffers, fails on a buffer of \<open>2 ^ 32\<close> bytes:
  its header is written as 0, and the round trip does not give the buffer back.
\<close>

theorem round_trip_huge_member_counterexample:
  "round_trip length_digest [Some (replicate 4294967296 0)] \<noteq> Some [replicate 4294967296 0]"
  by (rule round_trip_wrapped) simp_all

lemma serialize_little_small:
  "serialize little 0 = [0, 0, 0, 0]" "serialize little 5 = [5, 0, 0, 0]"
  "serialize little 3 = [3, 0, 0, 0]"
  by (simp_all add: serialize_def upt_rec)

text \<open>
  Claim C9. Assembling the three members \<open>[]\<close>, \<open>[1,2,3,4,5]\<close> and \<open>[9,9,9]\<close> gives a
  chunk region of exactly 20 bytes (three headers and the payloads), at the start of a
  buffer of 53 bytes, the last 33 being the trailer; and writing, reading back and
  enumerating yields exactly those three buffers, in that order.
\<close>

theorem concrete_scenario:
  "enumerate (load_members_from MD5 [Some [], Some [1, 2, 3, 4, 5], Some [9, 9, 9]])
     = [0, 0, 0, 0,  5, 0, 0, 0, 1, 2, 3, 4, 5,  3, 0, 0, 0, 9, 9, 9]
   \<and> data (load_members_from MD5 [Some [], Some [1, 2, 3, 4, 5], Some [9, 9, 9]])
     = \<lparr>offset = 0, extent = 20\<rparr>
   \<and> nbytes (filebuf (load_members_from MD5 [Some [], Some [1, 2, 3, 4, 5], Some [9, 9, 9]])) = 53
   \<and> round_trip MD5 [Some [], Some [1, 2, 3, 4, 5], Some [9, 9, 9]]
     = Some [[], [1, 2, 3, 4, 5], [9, 9, 9]]"
proof -
  let ?ms = "[Some [], Some [1, 2, 3, 4, 5], Some [9, 9, 9 :: byte]]"
  have r: "chunk_region (map buffer_range ?ms)
      = [0, 0, 0, 0,  5, 0, 0, 0, 1, 2, 3, 4, 5,  3, 0, 0, 0, 9, 9, 9]"
    by (simp add: chunk_region_def chunk_bytes_def buffer_range_def serialize_little_small)
  have "round_trip MD5 ?ms = Some (map buffer_range ?ms)"
    by (rule round_trip_buffers) (simp_all add: nbytes_def)
  then show ?thesis
    unfolding load_members_from_region r
    by (simp add: enumerate_def buffer_range_def view_def nbytes_def)
qed

section \<open>The index of the first corrupt chunk\<close>

text \<open>
  Claim C5, as the code has it. Let a file decrypt to a chunk region followed by 33
  bytes \<open>t\<close>, where the region is \<open>k - 1\<close> well-formed chunks (the payloads \<open>ms\<close>) followed
  by bytes \<open>rest\<close> at which the \<open>k\<close>-th chunk is corrupt: \<open>rest\<close> is not empty and its
  length field does not fit, or the declared length plus 4 exceeds what remains. Then
  the validation loop stops at \<open>rest\<close> with \<open>has_error\<close> true and the counter at \<open>k - 1\<close>,
  \<open>read_from_file\<close> fails with \<open>archive_data_is_corrupt\<close> and leaves the codec as it was,
  and when the digest in \<open>t\<close> matches, the index it reports is \<open>k - 1\<close>: the number of
  chunks before the failing one.
\<close>

theorem first_corrupt_chunk_reported:
  assumes "\<forall>m \<in> set ms. length m < 2 ^ 32"
    and "rest \<noteq> []"
    and "length rest < 4 \<or> unat (deserialize little rest) + 4 > length rest"
    and "decrypt_buffer h1_tea contents = Some ((chunk_region ms @ rest) @ t)"
    and "length t = 33"
  shows "validate_members 0 (chunk_region ms @ rest) = (length ms, rest)
    \<and> has_error rest
    \<and> (\<exists>diag. read_from_file MD5 this (Some contents)
          = Some (read_archive_data_is_corrupt, this, diag))
    \<and> (t = compute_md5_digest MD5 (chunk_region ms @ rest) @ [0] \<longrightarrow>
         read_from_file MD5 this (Some contents)
          = Some (read_archive_data_is_corrupt, this, [error_at_archive_member (length ms)]))"
proof -
  have err: "has_error rest"
    using assms(2,3) by (auto simp add: has_error_def is_at_end_def Let_def)
  then have "finished rest" by (simp add: finished_def)
  then have v: "validate_members 0 (chunk_region ms @ rest) = (length ms, rest)"
    using validate_members_region [OF assms(1), of 0 rest] by (simp add: validate_members_stop)
  have dec: "decrypted h1_tea contents = (chunk_region ms @ rest) @ t"
    using assms(4) by (simp add: decrypt_buffer_decrypted)
  have "chunk_region ms @ rest \<noteq> []"
    using assms(2) by simp
  from read_from_file_decrypted [OF dec assms(5) this, of MD5 this] v err
  show ?thesis by simp
qed

theorem first_corrupt_chunk_reported_witness:
  "validate_members 0 (chunk_region [[7]] @ [5, 0, 0, 0]) = (1, [5, 0, 0, 0])
   \<and> has_error [5, 0, 0, 0]
   \<and> read_from_file length_digest empty_archive
        (Some (encrypted h1_tea ((chunk_region [[7]] @ [5, 0, 0, 0])
           @ compute_md5_digest length_digest (chunk_region [[7]] @ [5, 0, 0, 0]) @ [0])))
      = Some (read_archive_data_is_corrupt, empty_archive, [error_at_archive_member 1])"
  using first_corrupt_chunk_reported [of "[[7]]" "[5, 0, 0, 0]"
      "encrypted h1_tea ((chunk_region [[7]] @ [5, 0, 0, 0])
           @ compute_md5_digest length_digest (chunk_region [[7]] @ [5, 0, 0, 0]) @ [0])"
      "compute_md5_digest length_digest (chunk_region [[7]] @ [5, 0, 0, 0]) @ [0]"
      length_digest empty_archive]
  by (simp add: decrypt_buffer_decrypted decrypted_encrypted deserialize_def)

text \<open>
  Claim C5 as stated, with the 1-based index \<open>k\<close> reported, fails: the file below
  decrypts to the region \<open>[5,0,0,0]\<close> and its digest, the first chunk (\<open>k = 1\<close>) declares
  5 bytes where none remain, and the index reported is 0.
\<close>

theorem reported_index_counterexample:
  "decrypt_buffer h1_tea
     [143, 1, 18, 68, 172, 16, 218, 163, 162, 154, 170, 141, 58, 138, 161, 234,
      162, 154, 170, 141, 58, 138, 161, 234, 162, 154, 170, 141, 58, 48, 120,
      119, 86, 94, 65, 99, 28]
     = Some ([5, 0, 0, 0] @ compute_md5_digest length_digest [5, 0, 0, 0] @ [0])
   \<and> has_error [5, 0, 0, 0]
   \<and> read_from_file length_digest empty_archive (Some
     [143, 1, 18, 68, 172, 16, 218, 163, 162, 154, 170, 141, 58, 138, 161, 234,
      162, 154, 170, 141, 58, 138, 161, 234, 162, 154, 170, 141, 58, 48, 120,
      119, 86, 94, 65, 99, 28])
     = Some (read_archive_data_is_corrupt, empty_archive, [error_at_archive_member 0])"
  by code_simp

end
